theory Spec2Isabelle
  imports Main "HOL-Library.Sublist"
begin

section \<open>The text model\<close>

text \<open>
  The script \<^verbatim>\<open>fix-modals.py\<close> reads \<^verbatim>\<open>src/index.tsx\<close> as text, rewrites it
  with fifteen calls of \<^verbatim>\<open>str.replace\<close> and one call of \<^verbatim>\<open>re.sub\<close>, and writes the
  result back. A Python \<^verbatim>\<open>str\<close> is a sequence of Unicode code points, so a text is a
  list of natural numbers here; \<open>ascii\<close> turns an ASCII literal into such a text. Two of
  the rule texts contain the code points U+2705 and U+274C, which are written out.
\<close>

type_synonym str = "nat list"

definition ascii :: "string \<Rightarrow> str" where
  "ascii s = map of_char s"

definition apostrophe :: nat where "apostrophe = 0x27"
definition check_mark :: nat where "check_mark = 0x2705"
definition cross_mark :: nat where "cross_mark = 0x274C"
definition newline :: nat where "newline = 0x0A"
definition carriage_return :: nat where "carriage_return = 0x0D"

text \<open>
  \<^verbatim>\<open>str.replace(old, new)\<close>: the text is scanned from the left, every occurrence of
  \<open>old\<close> that does not overlap an earlier replaced one is replaced by \<open>new\<close>. With an
  empty \<open>old\<close>, Python inserts \<open>new\<close> before every character and at the end.
\<close>

function replace :: "str \<Rightarrow> str \<Rightarrow> str \<Rightarrow> str" where
  "replace old new [] = (if old = [] then new else [])"
| "replace old new (c # cs) =
     (if old = [] then new @ c # replace old new cs
      else if prefix old (c # cs) then new @ replace old new (drop (length old) (c # cs))
      else c # replace old new cs)"
  by pat_completeness auto
termination
  by (relation "measure (\<lambda>(old, new, s). length s)") auto

text \<open>\<^verbatim>\<open>sub in s\<close>: the text \<open>sub\<close> occurs in \<open>s\<close> at some position.\<close>

fun occurs :: "str \<Rightarrow> str \<Rightarrow> bool" where
  "occurs sub [] = (sub = [])"
| "occurs sub (c # cs) = (if prefix sub (c # cs) then True else occurs sub cs)"




section \<open>The literal rules\<close>

text \<open>
  Lines 22 to 98 of the script: fifteen assignments
  \<^verbatim>\<open>content = content.replace(old, new)\<close>, in this order.
\<close>

definition replace_literals :: "str \<Rightarrow> str" where
  "replace_literals content0 =
    (let content = replace
           (ascii ''alert('Please log in to continue booking');'')
           (ascii ''await showAlert('Please log in to continue booking', 'Login Required');'')
           content0;
         content = replace
           (ascii ''alert('Please log in to continue booking.')'')
           (ascii ''await showAlert('Please log in to continue booking.', 'Login Required')'')
           content;
         content = replace
           (ascii ''alert('Please select a DJ first.');'')
           (ascii ''await showAlert('Please select a DJ first.', 'Selection Required');'')
           content;
         content = replace
           (ascii ''alert('Please select a date first.');'')
           (ascii ''await showAlert('Please select a date first.', 'Selection Required');'')
           content;
         content = replace
           (ascii ''alert('Please log in to continue.');'')
           (ascii ''await showAlert('Please log in to continue.', 'Login Required');'')
           content;
         content = replace
           (ascii ''alert('No booking data found. Please start from the beginning.');'')
           (ascii ''await showAlert('No booking data found. Please start from the beginning.', 'Error');'')
           content;
         content = replace
           (ascii ''alert('Please log in to continue with your booking.');'')
           (ascii ''await showAlert('Please log in to continue with your booking.', 'Login Required');'')
           content;
         content = replace
           (ascii ''alert('Your session has expired. Please log in again.');'')
           (ascii ''await showAlert('Your session has expired. Please log in again.', 'Session Expired');'')
           content;
         content = replace
           (ascii ''alert('Error: ' + error.message);'')
           (ascii ''await showError('Error: ' + error.message, 'Booking Error');'')
           content;
         content = replace
           (ascii ''alert('' @ [apostrophe, check_mark] @ ascii '' Booking status updated successfully!')'')
           (ascii ''await showSuccess('Booking status updated successfully!', 'Success')'')
           content;
         content = replace
           (ascii ''alert('' @ [apostrophe, cross_mark] @ ascii '' Failed to update status: ' + response.data.error)'')
           (ascii ''await showError('Failed to update status: ' + response.data.error, 'Update Failed')'')
           content;
         content = replace
           (ascii ''alert('' @ [apostrophe, cross_mark] @ ascii '' Error updating status')'')
           (ascii ''await showError('Error updating status', 'Update Failed')'')
           content;
         content = replace
           (ascii ''const shouldLogin = confirm('You need to be logged in to book a DJ. Would you like to log in now?');'')
           (ascii ''const shouldLogin = await showConfirm('You need to be logged in to book a DJ. Would you like to log in now?', 'Login Required');'')
           content;
         content = replace
           (ascii ''const shouldLogin = confirm('You need to be logged in to book a photobooth. Would you like to log in now?');'')
           (ascii ''const shouldLogin = await showConfirm('You need to be logged in to book a photobooth. Would you like to log in now?', 'Login Required');'')
           content;
         content = replace
           (ascii ''window.addEventListener('DOMContentLoaded', () => {'')
           (ascii ''window.addEventListener('DOMContentLoaded', async () => {'')
           content
     in content)"

text \<open>The same fifteen pairs as a table, in declaration order.\<close>

definition literal_rules :: "(str \<times> str) list" where
  "literal_rules =
    [(ascii ''alert('Please log in to continue booking');'',
      ascii ''await showAlert('Please log in to continue booking', 'Login Required');''),
     (ascii ''alert('Please log in to continue booking.')'',
      ascii ''await showAlert('Please log in to continue booking.', 'Login Required')''),
     (ascii ''alert('Please select a DJ first.');'',
      ascii ''await showAlert('Please select a DJ first.', 'Selection Required');''),
     (ascii ''alert('Please select a date first.');'',
      ascii ''await showAlert('Please select a date first.', 'Selection Required');''),
     (ascii ''alert('Please log in to continue.');'',
      ascii ''await showAlert('Please log in to continue.', 'Login Required');''),
     (ascii ''alert('No booking data found. Please start from the beginning.');'',
      ascii ''await showAlert('No booking data found. Please start from the beginning.', 'Error');''),
     (ascii ''alert('Please log in to continue with your booking.');'',
      ascii ''await showAlert('Please log in to continue with your booking.', 'Login Required');''),
     (ascii ''alert('Your session has expired. Please log in again.');'',
      ascii ''await showAlert('Your session has expired. Please log in again.', 'Session Expired');''),
     (ascii ''alert('Error: ' + error.message);'',
      ascii ''await showError('Error: ' + error.message, 'Booking Error');''),
     (ascii ''alert('' @ [apostrophe, check_mark] @ ascii '' Booking status updated successfully!')'',
      ascii ''await showSuccess('Booking status updated successfully!', 'Success')''),
     (ascii ''alert('' @ [apostrophe, cross_mark] @ ascii '' Failed to update status: ' + response.data.error)'',
      ascii ''await showError('Failed to update status: ' + response.data.error, 'Update Failed')''),
     (ascii ''alert('' @ [apostrophe, cross_mark] @ ascii '' Error updating status')'',
      ascii ''await showError('Error updating status', 'Update Failed')''),
     (ascii ''const shouldLogin = confirm('You need to be logged in to book a DJ. Would you like to log in now?');'',
      ascii ''const shouldLogin = await showConfirm('You need to be logged in to book a DJ. Would you like to log in now?', 'Login Required');''),
     (ascii ''const shouldLogin = confirm('You need to be logged in to book a photobooth. Would you like to log in now?');'',
      ascii ''const shouldLogin = await showConfirm('You need to be logged in to book a photobooth. Would you like to log in now?', 'Login Required');''),
     (ascii ''window.addEventListener('DOMContentLoaded', () => {'',
      ascii ''window.addEventListener('DOMContentLoaded', async () => {'')]"

definition apply_rules :: "(str \<times> str) list \<Rightarrow> str \<Rightarrow> str" where
  "apply_rules rs content = foldl (\<lambda>content (old, new). replace old new content) content rs"

section \<open>The pattern rule\<close>

text \<open>
  Lines 101 to 105: \<^verbatim>\<open>content = re.sub(r"(continueToCalendar\(\)) {", r"\1 async {", content)\<close>.
  The pattern uses only literal characters (the two escaped parentheses and the final
  brace are literals for Python's parser) and one capturing group around literal
  characters; the template uses literal characters and one group reference. The model
  covers this fragment: a pattern is a list of literal characters and groups of literal
  characters, a template a list of literal characters and group references.
\<close>

datatype re_item = Lit nat | Group str

datatype tmpl_item = TLit nat | TRef nat

datatype error = FileNotFoundError | PermissionError | UnicodeDecodeError | ReError

text \<open>A match at the start of the text: the groups captured and the text left.\<close>

fun match_at :: "re_item list \<Rightarrow> str \<Rightarrow> (str list \<times> str) option" where
  "match_at [] s = Some ([], s)"
| "match_at (Lit c # ps) [] = None"
| "match_at (Lit c # ps) (x # xs) = (if x = c then match_at ps xs else None)"
| "match_at (Group g # ps) s =
     (if prefix g s
      then (case match_at ps (drop (length g) s) of
              None \<Rightarrow> None
            | Some (gs, rest) \<Rightarrow> Some (g # gs, rest))
      else None)"

fun re_search :: "re_item list \<Rightarrow> str \<Rightarrow> bool" where
  "re_search pat [] = (match_at pat [] \<noteq> None)"
| "re_search pat (c # cs) = (if match_at pat (c # cs) \<noteq> None then True else re_search pat cs)"

fun expand :: "tmpl_item list \<Rightarrow> str list \<Rightarrow> str" where
  "expand [] gs = []"
| "expand (TLit c # ts) gs = c # expand ts gs"
| "expand (TRef n # ts) gs = gs ! (n - 1) @ expand ts gs"

fun group_count :: "re_item list \<Rightarrow> nat" where
  "group_count [] = 0"
| "group_count (Lit c # ps) = group_count ps"
| "group_count (Group g # ps) = Suc (group_count ps)"

text \<open>Python rejects a template that refers to a group the pattern does not have.\<close>

fun template_ok :: "tmpl_item list \<Rightarrow> nat \<Rightarrow> bool" where
  "template_ok [] n = True"
| "template_ok (TLit c # ts) n = template_ok ts n"
| "template_ok (TRef k # ts) n = (1 \<le> k \<and> k \<le> n \<and> template_ok ts n)"

text \<open>
  The scan of \<^verbatim>\<open>re.sub\<close>: leftmost matches that do not overlap are replaced by the
  expanded template; after an empty match the scan copies one character.
\<close>

function re_scan :: "re_item list \<Rightarrow> tmpl_item list \<Rightarrow> str \<Rightarrow> str" where
  "re_scan pat tmpl [] =
     (case match_at pat [] of None \<Rightarrow> [] | Some (gs, rest) \<Rightarrow> expand tmpl gs)"
| "re_scan pat tmpl (c # cs) =
     (case match_at pat (c # cs) of
        None \<Rightarrow> c # re_scan pat tmpl cs
      | Some (gs, rest) \<Rightarrow>
          if length rest < length (c # cs) then expand tmpl gs @ re_scan pat tmpl rest
          else expand tmpl gs @ c # re_scan pat tmpl cs)"
  by pat_completeness auto
termination
  by (relation "measure (\<lambda>(pat, tmpl, s). length s)") auto

definition re_sub :: "re_item list \<Rightarrow> tmpl_item list \<Rightarrow> str \<Rightarrow> error + str" where
  "re_sub pat tmpl s =
     (if template_ok tmpl (group_count pat) then Inr (re_scan pat tmpl s) else Inl ReError)"

definition calendar_pattern :: "re_item list" where
  "calendar_pattern = Group (ascii ''continueToCalendar()'') # map Lit (ascii '' {'')"

definition calendar_template :: "tmpl_item list" where
  "calendar_template = TRef 1 # map TLit (ascii '' async {'')"

text \<open>Lines 22 to 105: the whole transformation of the content.\<close>

definition patch_content :: "str \<Rightarrow> error + str" where
  "patch_content content =
     re_sub calendar_pattern calendar_template (replace_literals content)"

text \<open>The literal text a pattern of the fragment matches, and the groups it captures.\<close>

fun re_literal :: "re_item list \<Rightarrow> str" where
  "re_literal [] = []"
| "re_literal (Lit c # ps) = c # re_literal ps"
| "re_literal (Group g # ps) = g @ re_literal ps"

fun re_groups :: "re_item list \<Rightarrow> str list" where
  "re_groups [] = []"
| "re_groups (Lit c # ps) = re_groups ps"
| "re_groups (Group g # ps) = g # re_groups ps"

text \<open>All sixteen rules as literal pairs, the pattern rule last.\<close>

definition all_rules :: "(str \<times> str) list" where
  "all_rules = literal_rules @
     [(re_literal calendar_pattern, expand calendar_template (re_groups calendar_pattern))]"

section \<open>Files and the run of the script\<close>

text \<open>
  A file has a text (absent when its bytes do not decode) and two permissions; the
  world is the files by path and what was printed. \<^verbatim>\<open>open(path, 'r')\<close> with
  \<^verbatim>\<open>f.read()\<close> fails on a missing, unreadable or undecodable file;
  \<^verbatim>\<open>open(path, 'w')\<close> with \<^verbatim>\<open>f.write(content)\<close> creates or overwrites the file and
  fails on one that is not writable.

  Both files are opened in text mode with the default \<^verbatim>\<open>newline=None\<close>. On reading,
  every \<^verbatim>\<open>\r\n\<close> and every \<^verbatim>\<open>\r\<close> not followed by \<^verbatim>\<open>\n\<close> becomes \<^verbatim>\<open>\n\<close>. On
  writing, \<^verbatim>\<open>\n\<close> is written as \<^verbatim>\<open>os.linesep\<close>, which is \<^verbatim>\<open>\n\<close> on a POSIX
  system: there the text is written as it is, and that is the system modelled.
\<close>

fun universal_newlines :: "str \<Rightarrow> str" where
  "universal_newlines [] = []"
| "universal_newlines [c] = (if c = carriage_return then [newline] else [c])"
| "universal_newlines (c # d # s) =
     (if c = carriage_return
      then (if d = newline then newline # universal_newlines s
            else newline # universal_newlines (d # s))
      else c # universal_newlines (d # s))"

record disk_file =
  text_of :: "str option"
  readable :: bool
  writable :: bool

record world =
  files :: "string \<Rightarrow> disk_file option"
  stdout :: "string list"

definition read_text :: "world \<Rightarrow> string \<Rightarrow> error + str" where
  "read_text w path =
     (case files w path of
        None \<Rightarrow> Inl FileNotFoundError
      | Some f \<Rightarrow>
          if readable f
          then (case text_of f of
                  None \<Rightarrow> Inl UnicodeDecodeError
                | Some t \<Rightarrow> Inr (universal_newlines t))
          else Inl PermissionError)"

definition write_text :: "world \<Rightarrow> string \<Rightarrow> str \<Rightarrow> error + world" where
  "write_text w path content =
     (case files w path of
        None \<Rightarrow>
          Inr (w\<lparr>files := (files w)(path \<mapsto>
                 \<lparr>text_of = Some content, readable = True, writable = True\<rparr>)\<rparr>)
      | Some f \<Rightarrow>
          if writable f
          then Inr (w\<lparr>files := (files w)(path \<mapsto> f\<lparr>text_of := Some content\<rparr>)\<rparr>)
          else Inl PermissionError)"

text \<open>\<^verbatim>\<open>open(path, 'w')\<close> would succeed at this path.\<close>

definition writable_at :: "world \<Rightarrow> string \<Rightarrow> bool" where
  "writable_at w path = (case files w path of None \<Rightarrow> True | Some f \<Rightarrow> writable f)"

definition print :: "world \<Rightarrow> string \<Rightarrow> world" where
  "print w line = w\<lparr>stdout := stdout w @ [line]\<rparr>"

text \<open>
  The script from its first line to its last. The text of \<^verbatim>\<open>modal-inject.html\<close> is
  read into \<^verbatim>\<open>modal_html\<close> and the constant \<^verbatim>\<open>modal_script\<close> is bound, and neither is
  used afterwards.
\<close>

definition fix_modals :: "world \<Rightarrow> (error + unit) \<times> world" where
  "fix_modals w =
     (case read_text w ''src/index.tsx'' of
        Inl e \<Rightarrow> (Inl e, w)
      | Inr content \<Rightarrow>
          (case read_text w ''modal-inject.html'' of
             Inl e \<Rightarrow> (Inl e, w)
           | Inr modal_html \<Rightarrow>
               (case patch_content content of
                  Inl e \<Rightarrow> (Inl e, w)
                | Inr content' \<Rightarrow>
                    (let w1 = print w ''Replacements completed!'';
                         w2 = print w1 ''Saving to src/index.tsx...''
                     in case write_text w2 ''src/index.tsx'' content' of
                          Inl e \<Rightarrow> (Inl e, w2)
                        | Inr w3 \<Rightarrow>
                            (let w4 = print w3 ''Done! File updated.'';
                                 w5 = print w4 ''\<newline>Note: You still need to inject the modal HTML into pages manually.'';
                                 w6 = print w5 ''The modal HTML is already injected in DJ services page.''
                             in (Inr (), w6))))))"

section \<open>Texts that do not overlap\<close>

text \<open>
  \<open>mismatch a b\<close>: the two texts differ at a position both have, so neither is a prefix
  of the other. \<open>apart_tails a b\<close>: every nonempty suffix of \<open>a\<close> mismatches \<open>b\<close>.
  \<open>no_overlap a b\<close>: no occurrence of one text can share a character with an
  occurrence of the other.
\<close>

fun mismatch :: "str \<Rightarrow> str \<Rightarrow> bool" where
  "mismatch (x # xs) (y # ys) = (if x = y then mismatch xs ys else True)"
| "mismatch _ _ = False"

fun apart_tails :: "str \<Rightarrow> str \<Rightarrow> bool" where
  "apart_tails [] b = True"
| "apart_tails (x # xs) b = (mismatch (x # xs) b \<and> apart_tails xs b)"

definition no_overlap :: "str \<Rightarrow> str \<Rightarrow> bool" where
  "no_overlap a b = (apart_tails a b \<and> apart_tails b a)"

text \<open>
  Three checks on a rule table: no match is empty or overlaps itself; no two matches
  overlap; no match overlaps a replacement.
\<close>

definition self_apart :: "(str \<times> str) list \<Rightarrow> bool" where
  "self_apart rs = list_all (\<lambda>old. old \<noteq> [] \<and> apart_tails (tl old) old) (map fst rs)"

fun pairwise_apart :: "str list \<Rightarrow> bool" where
  "pairwise_apart [] = True"
| "pairwise_apart (m # ms) = (list_all (no_overlap m) ms \<and> pairwise_apart ms)"

definition creation_free :: "(str \<times> str) list \<Rightarrow> bool" where
  "creation_free rs = list_all (\<lambda>old. list_all (no_overlap old) (map snd rs)) (map fst rs)"


section \<open>Replacement and occurrence\<close>

lemma mismatch_iff: "mismatch a b \<longleftrightarrow> \<not> prefix a b \<and> \<not> prefix b a"
  by (induction a b rule: mismatch.induct) auto

lemma mismatch_append: "mismatch a b \<Longrightarrow> \<not> prefix a (b @ x)"
  by (induction a b rule: mismatch.induct) auto

lemma mismatch_append2: "mismatch a b \<Longrightarrow> \<not> prefix b (a @ x)"
  by (induction a b rule: mismatch.induct) auto

lemma apart_tails_drop: "apart_tails a b \<Longrightarrow> apart_tails (drop n a) b"
proof (induction a arbitrary: n)
  case Nil
  then show ?case by simp
next
  case (Cons x xs)
  then show ?case by (cases n) auto
qed

lemma apart_tails_Cons: "apart_tails a b \<Longrightarrow> a \<noteq> [] \<Longrightarrow> mismatch a b"
  by (cases a) auto

lemma occurs_iff: "occurs k s \<longleftrightarrow> (\<exists>p q. s = p @ k @ q)"
proof (induction s)
  case Nil
  then show ?case by auto
next
  case (Cons c cs)
  show ?case
  proof
    assume "occurs k (c # cs)"
    then consider "prefix k (c # cs)" | "occurs k cs" by (auto split: if_splits)
    then show "\<exists>p q. c # cs = p @ k @ q"
    proof cases
      case 1
      then obtain q where "c # cs = k @ q" by (auto simp: prefix_def)
      then have "c # cs = [] @ k @ q" by simp
      then show ?thesis by blast
    next
      case 2
      then obtain p q where "cs = p @ k @ q" using Cons by auto
      then have "c # cs = (c # p) @ k @ q" by simp
      then show ?thesis by blast
    qed
  next
    assume "\<exists>p q. c # cs = p @ k @ q"
    then obtain p q where pq: "c # cs = p @ k @ q" by blast
    show "occurs k (c # cs)"
    proof (cases p)
      case Nil
      then have "prefix k (c # cs)" using pq by (simp add: prefix_def)
      then show ?thesis by simp
    next
      case (Cons a p')
      then have "cs = p' @ k @ q" using pq by simp
      then have "occurs k cs" using Cons.IH by blast
      then show ?thesis by simp
    qed
  qed
qed

lemma occurs_drop: "occurs k (drop n s) \<Longrightarrow> occurs k s"
proof -
  assume "occurs k (drop n s)"
  then obtain p q where "drop n s = p @ k @ q" by (auto simp: occurs_iff)
  then have "s = (take n s @ p) @ k @ q" by (metis append_take_drop_id append_assoc)
  then show ?thesis unfolding occurs_iff by blast
qed

lemma replace_id: "\<not> occurs old s \<Longrightarrow> replace old new s = s"
proof (induction s)
  case Nil
  then show ?case by auto
next
  case (Cons c cs)
  then show ?case by auto
qed

lemma prefix_replace:
  "old \<noteq> [] \<Longrightarrow> apart_tails k new \<Longrightarrow> prefix k (replace old new s) \<Longrightarrow> prefix k s"
proof (induction s arbitrary: k)
  case Nil
  then show ?case by simp
next
  case (Cons c cs)
  show ?case
  proof (cases k)
    case Nil
    then show ?thesis by simp
  next
    case k: (Cons x xs)
    have mm: "mismatch k new" using Cons.prems(2) k by simp
    show ?thesis
    proof (cases "prefix old (c # cs)")
      case True
      then have "prefix k (new @ replace old new (drop (length old) (c # cs)))"
        using Cons.prems by simp
      then show ?thesis using mismatch_append [OF mm] by blast
    next
      case False
      then have "prefix (x # xs) (c # replace old new cs)"
        using Cons.prems k by simp
      then have "x = c" and "prefix xs (replace old new cs)" by auto
      moreover have "apart_tails xs new" using Cons.prems(2) k by simp
      ultimately show ?thesis using Cons.IH [of xs] Cons.prems(1) k by simp
    qed
  qed
qed

lemma occurs_append_new:
  "apart_tails new k \<Longrightarrow> occurs k (new @ x) \<Longrightarrow> occurs k x"
proof (induction new)
  case Nil
  then show ?case by simp
next
  case (Cons a new)
  have "mismatch (a # new) k" using Cons.prems(1) by simp
  then have "\<not> prefix k ((a # new) @ x)" by (rule mismatch_append2)
  then have "occurs k (new @ x)" using Cons.prems(2) by simp
  then show ?case using Cons by simp
qed

lemma replace_no_create:
  "old \<noteq> [] \<Longrightarrow> no_overlap k new \<Longrightarrow> \<not> occurs k s \<Longrightarrow> \<not> occurs k (replace old new s)"
proof (induction old new s rule: replace.induct)
  case (1 old new)
  then show ?case by simp
next
  case (2 old new c cs)
  have at1: "apart_tails k new" and at2: "apart_tails new k"
    using "2.prems"(2) by (simp_all add: no_overlap_def)
  show ?case
  proof (cases "prefix old (c # cs)")
    case True
    have "\<not> occurs k (drop (length old) (c # cs))"
      using "2.prems"(3) occurs_drop by blast
    then have "\<not> occurs k (replace old new (drop (length old) (c # cs)))"
      using "2.IH"(2) "2.prems" True by simp
    then have "\<not> occurs k (new @ replace old new (drop (length old) (c # cs)))"
      using occurs_append_new [OF at2] by blast
    then show ?thesis using True "2.prems"(1) by simp
  next
    case False
    have nk: "\<not> prefix k (c # cs)" and "\<not> occurs k cs"
      using "2.prems"(3) by (simp_all split: if_splits)
    then have ih: "\<not> occurs k (replace old new cs)"
      using "2.IH"(3) "2.prems" False by simp
    have "\<not> prefix k (replace old new (c # cs))"
      using prefix_replace [OF "2.prems"(1) at1] nk by blast
    then show ?thesis using ih False "2.prems"(1) by simp
  qed
qed

lemma replace_removes:
  "old \<noteq> [] \<Longrightarrow> no_overlap old new \<Longrightarrow> \<not> occurs old (replace old new s)"
proof (induction old new s rule: replace.induct)
  case (1 old new)
  then show ?case by simp
next
  case (2 old new c cs)
  have at1: "apart_tails old new" and at2: "apart_tails new old"
    using "2.prems"(2) by (simp_all add: no_overlap_def)
  show ?case
  proof (cases "prefix old (c # cs)")
    case True
    have "\<not> occurs old (replace old new (drop (length old) (c # cs)))"
      using "2.IH"(2) "2.prems" True by simp
    then have "\<not> occurs old (new @ replace old new (drop (length old) (c # cs)))"
      using occurs_append_new [OF at2] by blast
    then show ?thesis using True "2.prems"(1) by simp
  next
    case False
    have ih: "\<not> occurs old (replace old new cs)"
      using "2.IH"(3) "2.prems" False by simp
    have "\<not> prefix old (replace old new (c # cs))"
      using prefix_replace [OF "2.prems"(1) at1] False by blast
    then show ?thesis using ih False "2.prems"(1) by simp
  qed
qed

lemma replace_skip:
  "old \<noteq> [] \<Longrightarrow> apart_tails x old \<Longrightarrow> replace old new (x @ q) = x @ replace old new q"
proof (induction x)
  case Nil
  then show ?case by simp
next
  case (Cons a x)
  have "mismatch (a # x) old" using Cons.prems(2) by simp
  then have "\<not> prefix old ((a # x) @ q)" by (rule mismatch_append2)
  then show ?case using Cons by simp
qed

lemma prefix_straddle:
  assumes "apart_tails (tl m) x" and "prefix m (p @ x @ q)" and "p \<noteq> []"
  shows "prefix m p"
proof (rule ccontr)
  assume np: "\<not> prefix m p"
  from assms(2) np obtain us where us: "m = p @ us" and pu: "prefix us (x @ q)"
    by (auto simp: prefix_append)
  have "us \<noteq> []" using us np by auto
  have "drop (length p - 1) (tl m) = us" using us assms(3)
    by (cases p) (auto simp: drop_tl)
  then have "apart_tails us x" using apart_tails_drop [OF assms(1)] by metis
  then have "mismatch us x" using \<open>us \<noteq> []\<close> by (rule apart_tails_Cons)
  then show False using pu mismatch_append by blast
qed

lemma replace_split:
  "old \<noteq> [] \<Longrightarrow> no_overlap old x \<Longrightarrow>
   replace old new (p @ x @ q) = replace old new p @ x @ replace old new q"
proof (induction old new p rule: replace.induct)
  case (1 old new)
  then show ?case by (simp add: no_overlap_def replace_skip)
next
  case (2 old new c cs)
  have at: "apart_tails old x" using "2.prems"(2) by (simp add: no_overlap_def)
  then have at': "apart_tails (tl old) x" using apart_tails_drop [of old x 1] by (simp add: drop_Suc)
  show ?case
  proof (cases "prefix old (c # cs)")
    case True
    then obtain r where r: "c # cs = old @ r" by (auto simp: prefix_def)
    then have d: "drop (length old) (c # cs) = r" by (metis append_eq_conv_conj)
    have "prefix old ((c # cs) @ x @ q)" using True by (simp add: prefix_def) (metis append_assoc append_Cons r)
    moreover have "drop (length old) ((c # cs) @ x @ q) = r @ x @ q"
      using r by (metis append_assoc append_eq_conv_conj)
    ultimately have "replace old new ((c # cs) @ x @ q) = new @ replace old new (r @ x @ q)"
      using "2.prems"(1) by simp
    moreover have "replace old new (r @ x @ q) = replace old new r @ x @ replace old new q"
      using "2.IH"(2) [OF "2.prems"(1) True] "2.prems" d by simp
    moreover have "replace old new (c # cs) = new @ replace old new r"
      using True d "2.prems"(1) by simp
    ultimately show ?thesis by simp
  next
    case False
    have "\<not> prefix old ((c # cs) @ x @ q)"
      using prefix_straddle [OF at', of "c # cs" q] False by blast
    then have "replace old new ((c # cs) @ x @ q) = c # replace old new (cs @ x @ q)"
      using "2.prems"(1) by simp
    then show ?thesis using "2.IH"(3) "2.prems" False by simp
  qed
qed

lemma replace_split_self:
  "old \<noteq> [] \<Longrightarrow> apart_tails (tl old) old \<Longrightarrow>
   replace old new (p @ old @ q) = replace old new p @ new @ replace old new q"
proof (induction old new p rule: replace.induct)
  case (1 old new)
  then show ?case by (cases old) (auto)
next
  case (2 old new c cs)
  show ?case
  proof (cases "prefix old (c # cs)")
    case True
    then obtain r where r: "c # cs = old @ r" by (auto simp: prefix_def)
    then have d: "drop (length old) (c # cs) = r" by (metis append_eq_conv_conj)
    have "prefix old ((c # cs) @ old @ q)" using True by (simp add: prefix_def) (metis append_assoc append_Cons r)
    moreover have "drop (length old) ((c # cs) @ old @ q) = r @ old @ q"
      using r by (metis append_assoc append_eq_conv_conj)
    ultimately have "replace old new ((c # cs) @ old @ q) = new @ replace old new (r @ old @ q)"
      using "2.prems"(1) by simp
    moreover have "replace old new (r @ old @ q) = replace old new r @ new @ replace old new q"
      using "2.IH"(2) [OF "2.prems"(1) True] "2.prems" d by simp
    moreover have "replace old new (c # cs) = new @ replace old new r"
      using True d "2.prems"(1) by simp
    ultimately show ?thesis by simp
  next
    case False
    have "\<not> prefix old ((c # cs) @ old @ q)"
      using prefix_straddle [OF "2.prems"(2), of "c # cs" q] False by blast
    then have "replace old new ((c # cs) @ old @ q) = c # replace old new (cs @ old @ q)"
      using "2.prems"(1) by simp
    then show ?thesis using "2.IH"(3) "2.prems" False by simp
  qed
qed

subsection \<open>Rule tables\<close>

lemma apply_rules_Nil [simp]: "apply_rules [] d = d"
  by (simp add: apply_rules_def)

lemma apply_rules_Cons [simp]:
  "apply_rules ((old, new) # rs) d = apply_rules rs (replace old new d)"
  by (simp add: apply_rules_def)

lemma apply_rules_Cons_proj:
  "apply_rules (r # rs) d = apply_rules rs (replace (fst r) (snd r) d)"
  by (cases r) simp

lemma apply_rules_append [simp]:
  "apply_rules (rs @ rs') d = apply_rules rs' (apply_rules rs d)"
  by (simp add: apply_rules_def)

lemma replace_Nil_text [simp]: "old \<noteq> [] \<Longrightarrow> replace old new [] = []"
  by simp

lemma apply_rules_empty_text:
  "list_all (\<lambda>old. old \<noteq> []) (map fst rs) \<Longrightarrow> apply_rules rs [] = []"
  by (induction rs) auto

lemma apply_rules_id:
  "list_all (\<lambda>old. \<not> occurs old d) (map fst rs) \<Longrightarrow> apply_rules rs d = d"
  by (induction rs) (auto simp: replace_id)

lemma apply_rules_no_create:
  "list_all (\<lambda>(old, new). old \<noteq> [] \<and> no_overlap k new) rs \<Longrightarrow> \<not> occurs k d
   \<Longrightarrow> \<not> occurs k (apply_rules rs d)"
proof (induction rs arbitrary: d)
  case Nil
  then show ?case by simp
next
  case (Cons r rs)
  obtain old new where r: "r = (old, new)" by (cases r)
  have "\<not> occurs k (replace old new d)"
    using Cons.prems r by (simp add: replace_no_create)
  then show ?case using Cons r by simp
qed

lemma apply_rules_split:
  "list_all (\<lambda>(old, new). old \<noteq> [] \<and> no_overlap old x) rs \<Longrightarrow>
   apply_rules rs (p @ x @ q) = apply_rules rs p @ x @ apply_rules rs q"
proof (induction rs arbitrary: p q)
  case Nil
  then show ?case by simp
next
  case (Cons r rs)
  obtain old new where r: "r = (old, new)" by (cases r)
  have "replace old new (p @ x @ q) = replace old new p @ x @ replace old new q"
    using Cons.prems r by (simp add: replace_split)
  then show ?case using Cons r by simp
qed

lemma creation_free_pair:
  "creation_free rs \<Longrightarrow> (old, new) \<in> set rs \<Longrightarrow> (old', new') \<in> set rs \<Longrightarrow> no_overlap old new'"
  by (force simp: creation_free_def list_all_iff)

lemma self_apart_pair:
  "self_apart rs \<Longrightarrow> (old, new) \<in> set rs \<Longrightarrow> old \<noteq> [] \<and> apart_tails (tl old) old"
  by (force simp: self_apart_def list_all_iff)

lemma pairwise_apart_nth:
  "pairwise_apart ms \<Longrightarrow> i < j \<Longrightarrow> j < length ms \<Longrightarrow> no_overlap (ms ! i) (ms ! j)"
proof (induction ms arbitrary: i j)
  case Nil
  then show ?case by simp
next
  case (Cons m ms)
  obtain j' where j: "j = Suc j'" using Cons.prems(2) by (cases j) auto
  show ?case
  proof (cases i)
    case 0
    then show ?thesis using Cons.prems j by (simp add: list_all_length)
  next
    case (Suc i')
    then show ?thesis using Cons j by simp
  qed
qed

lemma rules_before:
  assumes "self_apart rs" and "pairwise_apart (map fst rs)" and "k < length rs"
  shows "list_all (\<lambda>(old, new). old \<noteq> [] \<and> no_overlap old (fst (rs ! k))) (take k rs)"
proof -
  have "old \<noteq> [] \<and> no_overlap old (fst (rs ! k))" if "(old, new) \<in> set (take k rs)" for old new
  proof -
    from that obtain i where i: "i < k" "take k rs ! i = (old, new)"
      by (auto simp: in_set_conv_nth)
    then have oi: "rs ! i = (old, new)" by simp
    then have mem: "(old, new) \<in> set rs" using i assms(3) by (metis nth_mem order.strict_trans)
    have "no_overlap (map fst rs ! i) (map fst rs ! k)"
      using pairwise_apart_nth [OF assms(2), of i k] i assms(3) by simp
    then have "no_overlap old (fst (rs ! k))" using oi i assms(3) by simp
    then show ?thesis using self_apart_pair [OF assms(1) mem] by simp
  qed
  then show ?thesis by (auto simp: list_all_iff)
qed

lemma rules_after:
  assumes "self_apart rs" and "creation_free rs" and "k < length rs"
  shows "list_all (\<lambda>(old, new). old \<noteq> [] \<and> no_overlap old (snd (rs ! k))) (drop (Suc k) rs)"
proof -
  have "old \<noteq> [] \<and> no_overlap old (snd (rs ! k))" if "(old, new) \<in> set (drop (Suc k) rs)" for old new
  proof -
    have mem: "(old, new) \<in> set rs" using that by (rule in_set_dropD)
    have "(fst (rs ! k), snd (rs ! k)) \<in> set rs" using assms(3) by simp
    then have "no_overlap old (snd (rs ! k))" using creation_free_pair [OF assms(2) mem] by blast
    then show ?thesis using self_apart_pair [OF assms(1) mem] by simp
  qed
  then show ?thesis by (auto simp: list_all_iff)
qed

lemma rules_all_against:
  assumes "self_apart rs" and "creation_free rs" and "(k, kn) \<in> set rs"
  shows "list_all (\<lambda>(old, new). old \<noteq> [] \<and> no_overlap k new) (take n rs)"
    and "list_all (\<lambda>(old, new). old \<noteq> [] \<and> no_overlap k new) (drop n rs)"
proof -
  have a: "old \<noteq> [] \<and> no_overlap k new" if "(old, new) \<in> set rs" for old new
    using creation_free_pair [OF assms(2) assms(3) that] self_apart_pair [OF assms(1) that] by simp
  show "list_all (\<lambda>(old, new). old \<noteq> [] \<and> no_overlap k new) (take n rs)"
    using a by (auto simp: list_all_iff dest: in_set_takeD)
  show "list_all (\<lambda>(old, new). old \<noteq> [] \<and> no_overlap k new) (drop n rs)"
    using a by (auto simp: list_all_iff dest: in_set_dropD)
qed






text \<open>The patched text at an occurrence of a match: the replacement stands between the
  patched text before it and the patched text after it.\<close>

lemma apply_rules_at_match:
  assumes sa: "self_apart rs" and pa: "pairwise_apart (map fst rs)" and cf: "creation_free rs"
    and k: "k < length rs"
  shows "apply_rules rs (p @ fst (rs ! k) @ q) =
         apply_rules rs p @ snd (rs ! k) @ apply_rules rs q"
proof -
  let ?old = "fst (rs ! k)" and ?new = "snd (rs ! k)"
  let ?pre = "take k rs" and ?post = "drop (Suc k) rs"
  have rs: "rs = ?pre @ [(?old, ?new)] @ ?post" using k by (simp add: id_take_nth_drop)
  have mem: "(?old, ?new) \<in> set rs" using k by simp
  have self: "?old \<noteq> []" "apart_tails (tl ?old) ?old" using self_apart_pair [OF sa mem] by simp_all
  have ap: "apply_rules rs d = apply_rules ?post (replace ?old ?new (apply_rules ?pre d))" for d
    by (subst rs) (simp add: apply_rules_Cons_proj)
  have "apply_rules ?pre (p @ ?old @ q) = apply_rules ?pre p @ ?old @ apply_rules ?pre q"
    using rules_before [OF sa pa k] by (rule apply_rules_split)
  then have "replace ?old ?new (apply_rules ?pre (p @ ?old @ q)) =
        replace ?old ?new (apply_rules ?pre p) @ ?new @ replace ?old ?new (apply_rules ?pre q)"
    using replace_split_self [OF self] by simp
  then have "apply_rules rs (p @ ?old @ q) =
        apply_rules ?post (replace ?old ?new (apply_rules ?pre p) @ ?new
           @ replace ?old ?new (apply_rules ?pre q))"
    using ap by simp
  also have "\<dots> = apply_rules ?post (replace ?old ?new (apply_rules ?pre p)) @ ?new
        @ apply_rules ?post (replace ?old ?new (apply_rules ?pre q))"
    using rules_after [OF sa cf k] by (rule apply_rules_split)
  finally show ?thesis using ap by simp
qed

text \<open>After the run no match of the table is left, so a second run changes nothing.\<close>

lemma apply_rules_clean:
  assumes sa: "self_apart rs" and cf: "creation_free rs" and mem: "(old, new) \<in> set rs"
  shows "\<not> occurs old (apply_rules rs d)"
proof -
  from mem obtain k where k: "k < length rs" "rs ! k = (old, new)" by (auto simp: in_set_conv_nth)
  let ?pre = "take k rs" and ?post = "drop (Suc k) rs"
  have rs: "rs = ?pre @ [(old, new)] @ ?post" using k by (metis append_Cons append_Nil id_take_nth_drop)
  have ap: "apply_rules rs d = apply_rules ?post (replace old new (apply_rules ?pre d))"
    by (subst rs) simp
  have self: "old \<noteq> []" using self_apart_pair [OF sa mem] by simp
  have "no_overlap old new" using creation_free_pair [OF cf mem mem] .
  then have "\<not> occurs old (replace old new (apply_rules ?pre d))"
    using replace_removes self by blast
  then show ?thesis
    using apply_rules_no_create [OF rules_all_against(2) [OF sa cf mem]] ap by simp
qed

lemma apply_rules_idem:
  assumes "self_apart rs" and "creation_free rs"
  shows "apply_rules rs (apply_rules rs d) = apply_rules rs d"
proof (rule apply_rules_id)
  have "\<not> occurs old (apply_rules rs d)" if "old \<in> set (map fst rs)" for old
  proof -
    from that obtain new where "(old, new) \<in> set rs" by auto
    then show ?thesis using apply_rules_clean [OF assms] by blast
  qed
  then show "list_all (\<lambda>old. \<not> occurs old (apply_rules rs d)) (map fst rs)"
    by (simp add: list_all_iff)
qed


subsection \<open>The pattern rule is a literal rule\<close>

lemma match_at_literal:
  "match_at pat s =
     (if prefix (re_literal pat) s
      then Some (re_groups pat, drop (length (re_literal pat)) s) else None)"
proof (induction pat s rule: match_at.induct)
  case (1 s)
  then show ?case by simp
next
  case (2 c ps)
  then show ?case by simp
next
  case (3 c ps x xs)
  then show ?case by auto
next
  case (4 g ps s)
  show ?case
  proof (cases "prefix g s")
    case True
    then obtain r where r: "s = g @ r" by (auto simp: prefix_def)
    then show ?thesis using 4 True by (auto simp: prefix_def)
  next
    case False
    then have "\<not> prefix (g @ re_literal ps) s" by (auto simp: prefix_def)
    then show ?thesis using False by simp
  qed
qed

lemma re_scan_replace:
  "re_literal pat \<noteq> [] \<Longrightarrow>
   re_scan pat tmpl s = replace (re_literal pat) (expand tmpl (re_groups pat)) s"
proof (induction "re_literal pat" "expand tmpl (re_groups pat)" s rule: replace.induct)
  case 1
  then show ?case by (simp add: match_at_literal)
next
  case (2 c cs)
  show ?case
  proof (cases "prefix (re_literal pat) (c # cs)")
    case True
    have "length (drop (length (re_literal pat)) (c # cs)) < length (c # cs)"
      using 2(4) by (cases "re_literal pat") auto
    then show ?thesis using 2 True by (simp add: match_at_literal)
  next
    case False
    then show ?thesis using 2 by (simp add: match_at_literal)
  qed
qed

lemma re_search_occurs: "re_search pat s = occurs (re_literal pat) s"
  by (induction s) (auto simp: match_at_literal)

subsection \<open>Counting occurrences\<close>





subsection \<open>Lines\<close>








lemma replace_chars: "old \<noteq> [] \<Longrightarrow> set (replace old new s) \<subseteq> set s \<union> set new"
proof (induction old new s rule: replace.induct)
  case (1 old new)
  then show ?case by simp
next
  case (2 old new c cs)
  show ?case
  proof (cases "prefix old (c # cs)")
    case True
    have "set (drop (length old) (c # cs)) \<subseteq> set (c # cs)" by (rule set_drop_subset)
    then show ?thesis using 2 True by auto
  next
    case False
    then show ?thesis using 2 by auto
  qed
qed



subsection \<open>Line ends\<close>

lemma universal_newlines_no_cr: "carriage_return \<notin> set (universal_newlines s)"
  by (induction s rule: universal_newlines.induct)
     (auto simp: newline_def carriage_return_def)

lemma universal_newlines_id: "carriage_return \<notin> set s \<Longrightarrow> universal_newlines s = s"
  by (induction s rule: universal_newlines.induct) auto

lemma apply_rules_chars:
  "list_all (\<lambda>(old, new). old \<noteq> [] \<and> c \<notin> set new) rs \<Longrightarrow> c \<notin> set s
   \<Longrightarrow> c \<notin> set (apply_rules rs s)"
proof (induction rs arbitrary: s)
  case Nil
  then show ?case by simp
next
  case (Cons r rs)
  obtain old new where r: "r = (old, new)" by (cases r)
  have "c \<notin> set (replace old new s)"
    using replace_chars [of old new s] Cons.prems r by auto
  then show ?case using Cons r by simp
qed


section \<open>The rule table of the script\<close>

lemma replace_literals_fold: "replace_literals d = apply_rules literal_rules d"
  by (simp add: replace_literals_def literal_rules_def apply_rules_def Let_def)

lemma calendar_old: "re_literal calendar_pattern = ascii ''continueToCalendar() {''"
  by (simp add: calendar_pattern_def ascii_def)

lemma calendar_new:
  "expand calendar_template (re_groups calendar_pattern) = ascii ''continueToCalendar() async {''"
  by (simp add: calendar_pattern_def calendar_template_def ascii_def)

lemma all_rules_literal:
  "all_rules = literal_rules @
     [(ascii ''continueToCalendar() {'', ascii ''continueToCalendar() async {'')]"
  by (simp only: all_rules_def calendar_old calendar_new)

lemma re_sub_calendar:
  "re_sub calendar_pattern calendar_template s =
     Inr (replace (ascii ''continueToCalendar() {'') (ascii ''continueToCalendar() async {'') s)"
proof -
  have ok: "template_ok calendar_template (group_count calendar_pattern)"
    by (simp add: calendar_pattern_def calendar_template_def ascii_def)
  have ne: "re_literal calendar_pattern \<noteq> []"
    by (simp add: calendar_pattern_def ascii_def)
  show ?thesis
    using re_scan_replace [OF ne, of calendar_template s] ok
    by (simp add: re_sub_def calendar_old calendar_new)
qed

lemma patch_content_rules: "patch_content d = Inr (apply_rules all_rules d)"
  by (simp add: patch_content_def re_sub_calendar replace_literals_fold all_rules_literal)

lemmas table_defs = all_rules_literal literal_rules_def ascii_def apostrophe_def check_mark_def
  cross_mark_def

lemmas overlap_eval = no_overlap_def apart_tails.simps mismatch.simps list.pred_inject
  eq_numeral_simps num.inject num.distinct simp_thms if_True if_False refl




lemma rules_self_apart: "self_apart all_rules"
  apply (simp add: self_apart_def table_defs del: list.pred_inject apart_tails.simps mismatch.simps)
  apply (simp only: overlap_eval list.sel list.distinct)
  done

lemma rules_pairwise_apart: "pairwise_apart (map fst all_rules)"
  apply (simp add: table_defs del: list.pred_inject apart_tails.simps mismatch.simps pairwise_apart.simps)
  apply (simp only: overlap_eval pairwise_apart.simps)
  done

lemma rules_creation_free: "creation_free all_rules"
  apply (simp add: creation_free_def table_defs del: list.pred_inject apart_tails.simps mismatch.simps)
  apply (simp only: overlap_eval)
  done

lemma rules_no_cr:
  "list_all (\<lambda>(old, new). old \<noteq> [] \<and> carriage_return \<notin> set new) all_rules"
  by (simp add: table_defs carriage_return_def)

subsection \<open>A run that succeeds\<close>

text \<open>
  When both reads succeed and the source file can be written, the run succeeds, the
  source file holds the patched text, reading it again gives that text, and no other
  file changes.
\<close>

lemma fix_modals_success:
  assumes src: "read_text w ''src/index.tsx'' = Inr d"
    and modal: "read_text w ''modal-inject.html'' = Inr h"
    and wr: "writable_at w ''src/index.tsx''"
  shows "\<exists>w' f. fix_modals w = (Inr (), w') \<and>
     files w' ''src/index.tsx'' = Some f \<and> text_of f = Some (apply_rules all_rules d) \<and>
     read_text w' ''src/index.tsx'' = Inr (apply_rules all_rules d) \<and>
     (\<forall>path. path \<noteq> ''src/index.tsx'' \<longrightarrow> files w' path = files w path)"
proof -
  let ?out = "apply_rules all_rules d"
  from src obtain f t where f: "files w ''src/index.tsx'' = Some f" "readable f"
      "text_of f = Some t" "d = universal_newlines t"
    by (auto simp: read_text_def split: option.splits if_splits)
  have "carriage_return \<notin> set d" using f(4) universal_newlines_no_cr by simp
  then have "carriage_return \<notin> set ?out" using rules_no_cr by (rule apply_rules_chars [rotated])
  then have again: "universal_newlines ?out = ?out" by (rule universal_newlines_id)
  have w: "writable f" using wr f(1) by (simp add: writable_at_def)
  show ?thesis
    using src modal f w again
    by (simp add: fix_modals_def patch_content_rules write_text_def print_def read_text_def Let_def)
qed

section \<open>The claims\<close>

lemma apart_tails_no_occurs: "apart_tails r k \<Longrightarrow> k \<noteq> [] \<Longrightarrow> \<not> occurs k r"
proof (induction r)
  case Nil
  then show ?case by simp
next
  case (Cons c cs)
  have "mismatch (c # cs) k" using Cons.prems(1) by simp
  then have "\<not> prefix k (c # cs)" using mismatch_append2 [of "c # cs" k "[]"] by simp
  then show ?case using Cons by simp
qed

lemma literal_in_all: "k < length literal_rules \<Longrightarrow> literal_rules ! k \<in> set all_rules"
  by (simp add: all_rules_literal)

lemma literal_nth_all: "k < length literal_rules \<Longrightarrow> all_rules ! k = literal_rules ! k"
  by (simp add: all_rules_literal nth_append)

lemma take_literal_all: "k < length literal_rules \<Longrightarrow> take k literal_rules = take k all_rules"
  by (simp add: all_rules_literal)

text \<open>
  Claim C1. Running the transformation on its own output changes nothing: for every
  text \<open>d\<close> the run succeeds with some text \<open>out\<close>, and the run on \<open>out\<close> succeeds
  with \<open>out\<close> again.
\<close>

theorem patch_idempotent:
  "\<exists>out. patch_content d = Inr out \<and> patch_content out = Inr out"
  using apply_rules_idem [OF rules_self_apart rules_creation_free, of d]
  by (simp add: patch_content_rules)

text \<open>
  Claim C4. When the match of a literal rule does not occur in the document, the rule's
  step is the identity: on the document itself, and on the content the run has reached
  when it comes to that rule (the earlier rules have not created the match). The step is
  a total function on texts, so there is no error to raise.
\<close>

theorem absent_match_noop:
  assumes "k < length literal_rules"
    and "\<not> occurs (fst (literal_rules ! k)) d"
  shows "replace (fst (literal_rules ! k)) (snd (literal_rules ! k)) d = d \<and>
         replace (fst (literal_rules ! k)) (snd (literal_rules ! k))
           (apply_rules (take k literal_rules) d) = apply_rules (take k literal_rules) d"
proof -
  let ?old = "fst (literal_rules ! k)" and ?new = "snd (literal_rules ! k)"
  have mem: "(?old, ?new) \<in> set all_rules" using literal_in_all [OF assms(1)] by simp
  have "\<not> occurs ?old (apply_rules (take k all_rules) d)"
    using apply_rules_no_create
      [OF rules_all_against(1) [OF rules_self_apart rules_creation_free mem] assms(2)] .
  then have "\<not> occurs ?old (apply_rules (take k literal_rules) d)"
    using take_literal_all [OF assms(1)] by simp
  then show ?thesis using assms(2) by (simp add: replace_id)
qed

theorem absent_match_noop_witness:
  "(2::nat) < length literal_rules \<and>
   \<not> occurs (fst (literal_rules ! 2)) (ascii ''alert('Hi');'') \<and>
   replace (fst (literal_rules ! 2)) (snd (literal_rules ! 2)) (ascii ''alert('Hi');'')
     = ascii ''alert('Hi');''"
proof -
  have len: "(2::nat) < length literal_rules" by (simp add: literal_rules_def)
  have no: "\<not> occurs (fst (literal_rules ! 2)) (ascii ''alert('Hi');'')"
    by (simp add: literal_rules_def ascii_def)
  show ?thesis using absent_match_noop [OF len no] len no by simp
qed

text \<open>
  Claim C5. The pattern rule rewrites every occurrence of the text the expression
  \<^verbatim>\<open>(continueToCalendar\(\)) {\<close> matches into \<^verbatim>\<open>continueToCalendar() async {\<close>: at an
  occurrence, the result is the rewritten text before it, the new text, and the rewritten
  text after it, and no match is left in a result. A text the expression does not match
  anywhere is returned as it is.
\<close>

theorem calendar_rule:
  "re_sub calendar_pattern calendar_template (p @ ascii ''continueToCalendar() {'' @ q) =
     Inr (re_scan calendar_pattern calendar_template p
          @ ascii ''continueToCalendar() async {''
          @ re_scan calendar_pattern calendar_template q) \<and>
   \<not> re_search calendar_pattern (re_scan calendar_pattern calendar_template s) \<and>
   (\<not> re_search calendar_pattern s \<longrightarrow>
      re_sub calendar_pattern calendar_template s = Inr s)"
proof -
  let ?old = "ascii ''continueToCalendar() {''"
  let ?new = "ascii ''continueToCalendar() async {''"
  have mem: "(?old, ?new) \<in> set all_rules" by (simp add: all_rules_literal)
  have self: "?old \<noteq> []" "apart_tails (tl ?old) ?old"
    using self_apart_pair [OF rules_self_apart mem] by simp_all
  have scan: "re_scan calendar_pattern calendar_template t = replace ?old ?new t" for t
    using re_sub_calendar [of t] by (simp add: re_sub_def split: if_splits)
  have "replace ?old ?new (p @ ?old @ q) = replace ?old ?new p @ ?new @ replace ?old ?new q"
    using self by (rule replace_split_self)
  moreover have "\<not> occurs ?old (replace ?old ?new s)"
    using replace_removes [OF self(1) creation_free_pair [OF rules_creation_free mem mem]] .
  moreover have "\<not> occurs ?old s \<Longrightarrow> replace ?old ?new s = s"
    by (rule replace_id)
  ultimately show ?thesis
    by (simp add: re_sub_calendar scan re_search_occurs calendar_old)
qed

theorem calendar_rule_witness:
  "\<not> re_search calendar_pattern (ascii ''function goBack() {'') \<and>
   re_sub calendar_pattern calendar_template (ascii ''function goBack() {'')
     = Inr (ascii ''function goBack() {'')"
proof -
  have no: "\<not> re_search calendar_pattern (ascii ''function goBack() {'')"
    by (simp add: calendar_pattern_def ascii_def)
  show ?thesis using calendar_rule [of "[]" "[]" "ascii ''function goBack() {''"] no by simp
qed

text \<open>
  Claim C6. Wherever the document reads
  \<^verbatim>\<open>window.addEventListener('DOMContentLoaded', () => {\<close>, the patched document reads
  \<^verbatim>\<open>window.addEventListener('DOMContentLoaded', async () => {\<close> there, between the
  patched text before the occurrence and the patched text after it, and the old text
  occurs nowhere in the patched document. When the script reads this document from
  \<^verbatim>\<open>src/index.tsx\<close> and can write that file, the run succeeds, the file holds the
  patched document, and reading it again gives the patched document.
\<close>

theorem dom_content_loaded_async:
  "\<exists>p' q'. patch_content p = Inr p' \<and> patch_content q = Inr q' \<and>
     patch_content (p @ ascii ''window.addEventListener('DOMContentLoaded', () => {'' @ q) =
       Inr (p' @ ascii ''window.addEventListener('DOMContentLoaded', async () => {'' @ q') \<and>
     \<not> occurs (ascii ''window.addEventListener('DOMContentLoaded', () => {'')
         (p' @ ascii ''window.addEventListener('DOMContentLoaded', async () => {'' @ q') \<and>
     (\<forall>w h.
        read_text w ''src/index.tsx'' =
          Inr (p @ ascii ''window.addEventListener('DOMContentLoaded', () => {'' @ q) \<and>
        read_text w ''modal-inject.html'' = Inr h \<and>
        writable_at w ''src/index.tsx'' \<longrightarrow>
        (\<exists>w' f. fix_modals w = (Inr (), w') \<and>
           files w' ''src/index.tsx'' = Some f \<and>
           text_of f =
             Some (p' @ ascii ''window.addEventListener('DOMContentLoaded', async () => {'' @ q') \<and>
           read_text w' ''src/index.tsx'' =
             Inr (p' @ ascii ''window.addEventListener('DOMContentLoaded', async () => {'' @ q')))"
proof -
  let ?old = "ascii ''window.addEventListener('DOMContentLoaded', () => {''"
  let ?new = "ascii ''window.addEventListener('DOMContentLoaded', async () => {''"
  let ?p = "apply_rules all_rules p" and ?q = "apply_rules all_rules q"
  have k: "(14::nat) < length all_rules" and nth: "all_rules ! 14 = (?old, ?new)"
    by (simp_all add: all_rules_literal literal_rules_def)
  have mem: "(?old, ?new) \<in> set all_rules" using k nth by (metis nth_mem)
  have at: "apply_rules all_rules (p @ ?old @ q) = ?p @ ?new @ ?q"
    using apply_rules_at_match
      [OF rules_self_apart rules_pairwise_apart rules_creation_free k, of p q] nth by simp
  have clean: "\<not> occurs ?old (?p @ ?new @ ?q)"
    using apply_rules_clean [OF rules_self_apart rules_creation_free mem, of "p @ ?old @ q"] at
    by simp
  have run: "\<exists>w' f. fix_modals w = (Inr (), w') \<and> files w' ''src/index.tsx'' = Some f \<and>
      text_of f = Some (?p @ ?new @ ?q) \<and> read_text w' ''src/index.tsx'' = Inr (?p @ ?new @ ?q)"
    if "read_text w ''src/index.tsx'' = Inr (p @ ?old @ q)"
      and "read_text w ''modal-inject.html'' = Inr h"
      and "writable_at w ''src/index.tsx''" for w h
    using fix_modals_success [OF that] at by auto
  have "patch_content p = Inr ?p \<and> patch_content q = Inr ?q \<and>
     patch_content (p @ ?old @ q) = Inr (?p @ ?new @ ?q) \<and>
     \<not> occurs ?old (?p @ ?new @ ?q) \<and>
     (\<forall>w h. read_text w ''src/index.tsx'' = Inr (p @ ?old @ q) \<and>
        read_text w ''modal-inject.html'' = Inr h \<and> writable_at w ''src/index.tsx'' \<longrightarrow>
        (\<exists>w' f. fix_modals w = (Inr (), w') \<and> files w' ''src/index.tsx'' = Some f \<and>
           text_of f = Some (?p @ ?new @ ?q) \<and>
           read_text w' ''src/index.tsx'' = Inr (?p @ ?new @ ?q)))"
    using at clean run by (simp add: patch_content_rules)
  then show ?thesis by blast
qed

theorem dom_content_loaded_async_witness:
  "read_text
     \<lparr>files = [''src/index.tsx'' \<mapsto>
         \<lparr>text_of = Some (ascii ''window.addEventListener('DOMContentLoaded', () => {''
                           @ [carriage_return, newline] @ ascii ''init();''),
          readable = True, writable = True\<rparr>,
        ''modal-inject.html'' \<mapsto>
         \<lparr>text_of = Some (ascii ''<div>''), readable = True, writable = False\<rparr>],
      stdout = []\<rparr> ''src/index.tsx'' =
     Inr (ascii ''window.addEventListener('DOMContentLoaded', () => {''
          @ [newline] @ ascii ''init();'') \<and>
   (\<exists>w' f. fix_modals
     \<lparr>files = [''src/index.tsx'' \<mapsto>
         \<lparr>text_of = Some (ascii ''window.addEventListener('DOMContentLoaded', () => {''
                           @ [carriage_return, newline] @ ascii ''init();''),
          readable = True, writable = True\<rparr>,
        ''modal-inject.html'' \<mapsto>
         \<lparr>text_of = Some (ascii ''<div>''), readable = True, writable = False\<rparr>],
      stdout = []\<rparr> = (Inr (), w') \<and>
      files w' ''src/index.tsx'' = Some f \<and>
      text_of f = Some (ascii ''window.addEventListener('DOMContentLoaded', async () => {''
                        @ [newline] @ ascii ''init();''))"
proof -
  let ?old = "ascii ''window.addEventListener('DOMContentLoaded', () => {''"
  let ?new = "ascii ''window.addEventListener('DOMContentLoaded', async () => {''"
  let ?q = "[newline] @ ascii ''init();''"
  let ?W = "\<lparr>files = [''src/index.tsx'' \<mapsto>
         \<lparr>text_of = Some (?old @ [carriage_return, newline] @ ascii ''init();''),
          readable = True, writable = True\<rparr>,
        ''modal-inject.html'' \<mapsto>
         \<lparr>text_of = Some (ascii ''<div>''), readable = True, writable = False\<rparr>],
      stdout = []\<rparr>"
  have rd: "read_text ?W ''src/index.tsx'' = Inr ([] @ ?old @ ?q)"
    by (simp add: read_text_def ascii_def carriage_return_def newline_def)
  have md: "read_text ?W ''modal-inject.html'' = Inr (ascii ''<div>'')"
    by (simp add: read_text_def ascii_def carriage_return_def)
  have wr: "writable_at ?W ''src/index.tsx''" by (simp add: writable_at_def)
  have p0: "patch_content [] = Inr []"
    using rules_self_apart apply_rules_empty_text [of all_rules]
    by (simp add: patch_content_rules self_apart_def list_all_iff)
  have q0: "patch_content ?q = Inr ?q"
    using apply_rules_id [of ?q all_rules]
    by (simp add: patch_content_rules table_defs newline_def)
  obtain p' q' where pq: "patch_content [] = Inr p'" "patch_content ?q = Inr q'"
    and run: "\<forall>w h. read_text w ''src/index.tsx'' = Inr ([] @ ?old @ ?q) \<and>
        read_text w ''modal-inject.html'' = Inr h \<and> writable_at w ''src/index.tsx'' \<longrightarrow>
        (\<exists>w' f. fix_modals w = (Inr (), w') \<and> files w' ''src/index.tsx'' = Some f \<and>
           text_of f = Some (p' @ ?new @ q') \<and>
           read_text w' ''src/index.tsx'' = Inr (p' @ ?new @ q'))"
    using dom_content_loaded_async [of "[]" ?q] by blast
  have "p' = []" "q' = ?q" using pq p0 q0 by simp_all
  then have "\<exists>w' f. fix_modals ?W = (Inr (), w') \<and> files w' ''src/index.tsx'' = Some f \<and>
      text_of f = Some (?new @ ?q)"
    using run rd md wr by (metis append_Nil)
  then show ?thesis using rd by simp
qed

text \<open>
  Claim C7. When the read of \<^verbatim>\<open>src/index.tsx\<close> fails (the file is missing, unreadable
  or not text), or the read of \<^verbatim>\<open>modal-inject.html\<close> fails, the run ends with that
  error and the world is as it was: nothing is written or printed, and a missing file is
  still missing.
\<close>

theorem read_failure_writes_nothing:
  "(read_text w ''src/index.tsx'' = Inl e \<longrightarrow> fix_modals w = (Inl e, w)) \<and>
   (read_text w ''src/index.tsx'' = Inr content \<and> read_text w ''modal-inject.html'' = Inl e
      \<longrightarrow> fix_modals w = (Inl e, w)) \<and>
   (files w ''src/index.tsx'' = None \<longrightarrow>
      fix_modals w = (Inl FileNotFoundError, w) \<and>
      files (snd (fix_modals w)) ''src/index.tsx'' = None) \<and>
   (snd (fix_modals w) \<noteq> w \<longrightarrow>
      (\<exists>c h. read_text w ''src/index.tsx'' = Inr c \<and> read_text w ''modal-inject.html'' = Inr h))"
  by (auto simp: fix_modals_def read_text_def split: sum.splits option.splits if_splits)

theorem read_failure_writes_nothing_witness:
  "files \<lparr>files = Map.empty, stdout = []\<rparr> ''src/index.tsx'' = None \<and>
   fix_modals \<lparr>files = Map.empty, stdout = []\<rparr>
     = (Inl FileNotFoundError, \<lparr>files = Map.empty, stdout = []\<rparr>)"
  using read_failure_writes_nothing [of "\<lparr>files = Map.empty, stdout = []\<rparr>"]
  by simp

text \<open>
  Claim C8. The text of \<^verbatim>\<open>modal-inject.html\<close> has no influence on the run: two worlds
  that agree on everything but that file, which both can read, end with the same result,
  the same printed lines and the same file at \<^verbatim>\<open>src/index.tsx\<close>.
\<close>

theorem modal_html_unused:
  assumes "read_text w ''modal-inject.html'' = Inr h1"
    and "read_text w' ''modal-inject.html'' = Inr h2"
    and "files w ''src/index.tsx'' = files w' ''src/index.tsx''"
    and "stdout w = stdout w'"
  shows "fst (fix_modals w) = fst (fix_modals w') \<and>
     files (snd (fix_modals w)) ''src/index.tsx'' = files (snd (fix_modals w')) ''src/index.tsx'' \<and>
     stdout (snd (fix_modals w)) = stdout (snd (fix_modals w'))"
  using assms
  by (auto simp: fix_modals_def read_text_def write_text_def print_def Let_def
      split: sum.splits option.splits if_splits)


theorem modal_html_unused_witness:
  "read_text \<lparr>files = [''src/index.tsx'' \<mapsto> \<lparr>text_of = Some (ascii ''a''), readable = True, writable = True\<rparr>,
                         ''modal-inject.html'' \<mapsto> \<lparr>text_of = Some (ascii ''<div>''), readable = True, writable = False\<rparr>],
               stdout = []\<rparr> ''modal-inject.html'' = Inr (ascii ''<div>'') \<and>
   read_text \<lparr>files = [''src/index.tsx'' \<mapsto> \<lparr>text_of = Some (ascii ''a''), readable = True, writable = True\<rparr>,
                         ''modal-inject.html'' \<mapsto> \<lparr>text_of = Some (ascii ''<p>''), readable = True, writable = False\<rparr>],
               stdout = []\<rparr> ''modal-inject.html'' = Inr (ascii ''<p>'') \<and>
   files (snd (fix_modals
      \<lparr>files = [''src/index.tsx'' \<mapsto> \<lparr>text_of = Some (ascii ''a''), readable = True, writable = True\<rparr>,
                 ''modal-inject.html'' \<mapsto> \<lparr>text_of = Some (ascii ''<div>''), readable = True, writable = False\<rparr>],
       stdout = []\<rparr>)) ''src/index.tsx'' =
   files (snd (fix_modals
      \<lparr>files = [''src/index.tsx'' \<mapsto> \<lparr>text_of = Some (ascii ''a''), readable = True, writable = True\<rparr>,
                 ''modal-inject.html'' \<mapsto> \<lparr>text_of = Some (ascii ''<p>''), readable = True, writable = False\<rparr>],
       stdout = []\<rparr>)) ''src/index.tsx''"
proof -
  let ?src = "\<lparr>text_of = Some (ascii ''a''), readable = True, writable = True\<rparr>"
  let ?w = "\<lparr>files = [''src/index.tsx'' \<mapsto> ?src,
                 ''modal-inject.html'' \<mapsto> \<lparr>text_of = Some (ascii ''<div>''), readable = True, writable = False\<rparr>],
             stdout = []\<rparr>"
  let ?w' = "\<lparr>files = [''src/index.tsx'' \<mapsto> ?src,
                 ''modal-inject.html'' \<mapsto> \<lparr>text_of = Some (ascii ''<p>''), readable = True, writable = False\<rparr>],
             stdout = []\<rparr>"
  have r1: "read_text ?w ''modal-inject.html'' = Inr (ascii ''<div>'')"
    by (simp add: read_text_def ascii_def carriage_return_def)
  have r2: "read_text ?w' ''modal-inject.html'' = Inr (ascii ''<p>'')"
    by (simp add: read_text_def ascii_def carriage_return_def)
  have f: "files ?w ''src/index.tsx'' = files ?w' ''src/index.tsx''" by simp
  have s: "stdout ?w = stdout ?w'" by simp
  show ?thesis using modal_html_unused [OF r1 r2 f s] r1 r2 by blast
qed

text \<open>
  Claim C9. No replacement of an earlier rule contains the match of a later rule: not
  the literal match of a later literal rule, and not a match of the pattern. So the
  rules after a rule leave its replacement as it is.
\<close>

theorem no_cascade:
  "(\<forall>i j. i < j \<and> j < length literal_rules \<longrightarrow>
      \<not> occurs (fst (literal_rules ! j)) (snd (literal_rules ! i))) \<and>
   (\<forall>i. i < length literal_rules \<longrightarrow>
      \<not> re_search calendar_pattern (snd (literal_rules ! i))) \<and>
   (\<forall>i. i < length all_rules \<longrightarrow>
      apply_rules (drop (Suc i) all_rules) (snd (all_rules ! i)) = snd (all_rules ! i))"
proof -
  have apart: "\<not> occurs (fst (all_rules ! j)) (snd (all_rules ! i))"
    if "i < length all_rules" "j < length all_rules" for i j
  proof -
    have mi: "(fst (all_rules ! i), snd (all_rules ! i)) \<in> set all_rules"
      and mj: "(fst (all_rules ! j), snd (all_rules ! j)) \<in> set all_rules"
      using that by simp_all
    have "no_overlap (fst (all_rules ! j)) (snd (all_rules ! i))"
      using creation_free_pair [OF rules_creation_free mj mi] .
    then have "apart_tails (snd (all_rules ! i)) (fst (all_rules ! j))"
      by (simp add: no_overlap_def)
    moreover have "fst (all_rules ! j) \<noteq> []"
      using self_apart_pair [OF rules_self_apart mj] by simp
    ultimately show ?thesis by (rule apart_tails_no_occurs)
  qed
  have len: "length all_rules = Suc (length literal_rules)"
    by (simp add: all_rules_literal)
  have last: "fst (all_rules ! length literal_rules) = re_literal calendar_pattern"
    by (simp add: all_rules_def)
  have a: "\<not> occurs (fst (literal_rules ! j)) (snd (literal_rules ! i))"
    if "i < j" "j < length literal_rules" for i j
    using apart [of i j] that len by (simp add: literal_nth_all)
  have b: "\<not> re_search calendar_pattern (snd (literal_rules ! i))"
    if "i < length literal_rules" for i
    using apart [of i "length literal_rules"] that len last
    by (simp add: literal_nth_all re_search_occurs)
  have c: "apply_rules (drop (Suc i) all_rules) (snd (all_rules ! i)) = snd (all_rules ! i)"
    if "i < length all_rules" for i
  proof (rule apply_rules_id)
    have "\<not> occurs old (snd (all_rules ! i))" if "old \<in> set (map fst (drop (Suc i) all_rules))" for old
    proof -
      from that have "old \<in> set (map fst all_rules)" by (auto dest: in_set_dropD)
      then obtain j where "j < length all_rules" "fst (all_rules ! j) = old"
        by (auto simp: in_set_conv_nth)
      then show ?thesis using apart [OF \<open>i < length all_rules\<close>, of j] by simp
    qed
    then show "list_all (\<lambda>old. \<not> occurs old (snd (all_rules ! i))) (map fst (drop (Suc i) all_rules))"
      by (simp add: list_all_iff)
  qed
  show ?thesis using a b c by blast
qed

theorem no_cascade_witness:
  "(0::nat) < 1 \<and> 1 < length literal_rules \<and>
   \<not> occurs (ascii ''alert('Please log in to continue booking.')'')
       (ascii ''await showAlert('Please log in to continue booking', 'Login Required');'') \<and>
   \<not> re_search calendar_pattern
       (ascii ''await showAlert('Please log in to continue booking', 'Login Required');'')"
proof -
  have len: "(1::nat) < length literal_rules" by (simp add: literal_rules_def)
  have n0: "snd (literal_rules ! 0) =
      ascii ''await showAlert('Please log in to continue booking', 'Login Required');''"
    and n1: "fst (literal_rules ! 1) = ascii ''alert('Please log in to continue booking.')''"
    by (simp_all add: literal_rules_def)
  have "\<not> occurs (fst (literal_rules ! 1)) (snd (literal_rules ! 0))"
    using no_cascade len by blast
  moreover have "\<not> re_search calendar_pattern (snd (literal_rules ! 0))"
    using no_cascade len by (meson less_trans zero_less_one)
  ultimately show ?thesis using len n0 n1 by simp
qed

text \<open>
  Claim C10. The three rules for alerts whose message starts with an emoji drop the emoji
  and the space after it: the message in the replacement is the message of the alert
  without its first two characters, so the two messages differ.
\<close>

theorem emoji_dropped:
  "patch_content
     (ascii ''alert('' @ [apostrophe] @ ([check_mark, 0x20] @ ascii ''Booking status updated successfully!'')
        @ [apostrophe] @ ascii '')'') =
   Inr (ascii ''await showSuccess('' @ [apostrophe] @ ascii ''Booking status updated successfully!''
        @ [apostrophe] @ ascii '', 'Success')'') \<and>
   patch_content
     (ascii ''alert('' @ [apostrophe] @ ([cross_mark, 0x20] @ ascii ''Failed to update status: '')
        @ [apostrophe] @ ascii '' + response.data.error)'') =
   Inr (ascii ''await showError('' @ [apostrophe] @ ascii ''Failed to update status: ''
        @ [apostrophe] @ ascii '' + response.data.error, 'Update Failed')'') \<and>
   patch_content
     (ascii ''alert('' @ [apostrophe] @ ([cross_mark, 0x20] @ ascii ''Error updating status'')
        @ [apostrophe] @ ascii '')'') =
   Inr (ascii ''await showError('' @ [apostrophe] @ ascii ''Error updating status''
        @ [apostrophe] @ ascii '', 'Update Failed')'') \<and>
   [check_mark, 0x20] @ ascii ''Booking status updated successfully!''
     \<noteq> ascii ''Booking status updated successfully!'' \<and>
   [cross_mark, 0x20] @ ascii ''Failed to update status: '' \<noteq> ascii ''Failed to update status: '' \<and>
   [cross_mark, 0x20] @ ascii ''Error updating status'' \<noteq> ascii ''Error updating status''"
proof -
  have empty: "apply_rules all_rules [] = []"
    using rules_self_apart by (intro apply_rules_empty_text) (simp add: self_apart_def list_all_iff)
  have at: "k < length all_rules \<Longrightarrow>
      apply_rules all_rules (fst (all_rules ! k)) = snd (all_rules ! k)" for k
    using apply_rules_at_match
      [OF rules_self_apart rules_pairwise_apart rules_creation_free, of k "[]" "[]"] empty
    by simp
  have len: "(9::nat) < length all_rules" "(10::nat) < length all_rules" "(11::nat) < length all_rules"
    by (simp_all add: all_rules_literal literal_rules_def)
  have r9: "all_rules ! 9 =
     (ascii ''alert('' @ [apostrophe] @ ([check_mark, 0x20] @ ascii ''Booking status updated successfully!'')
        @ [apostrophe] @ ascii '')'',
      ascii ''await showSuccess('' @ [apostrophe] @ ascii ''Booking status updated successfully!''
        @ [apostrophe] @ ascii '', 'Success')'')"
    by (simp add: all_rules_literal literal_rules_def ascii_def apostrophe_def)
  have r10: "all_rules ! 10 =
     (ascii ''alert('' @ [apostrophe] @ ([cross_mark, 0x20] @ ascii ''Failed to update status: '')
        @ [apostrophe] @ ascii '' + response.data.error)'',
      ascii ''await showError('' @ [apostrophe] @ ascii ''Failed to update status: ''
        @ [apostrophe] @ ascii '' + response.data.error, 'Update Failed')'')"
    by (simp add: all_rules_literal literal_rules_def ascii_def apostrophe_def)
  have r11: "all_rules ! 11 =
     (ascii ''alert('' @ [apostrophe] @ ([cross_mark, 0x20] @ ascii ''Error updating status'')
        @ [apostrophe] @ ascii '')'',
      ascii ''await showError('' @ [apostrophe] @ ascii ''Error updating status''
        @ [apostrophe] @ ascii '', 'Update Failed')'')"
    by (simp add: all_rules_literal literal_rules_def ascii_def apostrophe_def)
  have neq: "length (a # b # m) \<noteq> length m" for a b :: nat and m by simp
  have d: "[a, b] @ m \<noteq> m" for a b :: nat and m using neq [of a b m] by auto
  show ?thesis
    using at [OF len(1)] at [OF len(2)] at [OF len(3)] d
    by (simp only: r9 r10 r11 fst_conv snd_conv patch_content_rules simp_thms)
qed







end
